theory Spec2Isabelle
  imports Main "HOL-Library.Word"
begin

section \<open>Data model\<close>

text \<open>
  A Node \<open>Buffer\<close> is a list of bytes.  A JavaScript string is a list of 16-bit
  code units (UTF-16): \<open>slice\<close> and \<open>length\<close> count code units.
  \<open>ascii\<close> writes a string of the model from a HOL string literal.
\<close>

type_synonym byte = "8 word"
type_synonym buffer = "byte list"
type_synonym jsstring = "16 word list"

definition ascii :: "string \<Rightarrow> jsstring" where
  "ascii s = map (\<lambda>c. of_nat (of_char c)) s"

text \<open>
  The entries of \<open>bfe.json\<close> as \<open>index.js\<close> reads them: a type has a name
  (\<open>type.type\<close>), a code, an optional sigil and its formats; a format has a name
  (\<open>format.format\<close>), a code and an optional suffix.  A code is one byte: the source
  compares \<open>type.code\<close>, a one-byte buffer, with \<open>input.slice(0, 1)\<close>.
\<close>

record format_def =
  format_name :: string
  format_code :: byte
  suffix :: "jsstring option"

record type_def =
  type_name :: string
  type_code :: byte
  sigil :: "jsstring option"
  formats :: "format_def list"

text \<open>
  The keys of the objects of the model: every string but \<open>__proto__\<close>.  On the fresh
  object \<open>output\<close> the assignment \<open>output[key] = y\<close> creates the own property
  \<open>key\<close> for each of these keys.  For the key \<open>__proto__\<close> it runs the setter of
  \<open>Object.prototype\<close> instead: no own property is created, and \<open>output\<close> gets
  \<open>y\<close> as its prototype when \<open>y\<close> is an object.  An object with the own key
  \<open>__proto__\<close> (\<open>JSON.parse\<close> makes them) is therefore not a value of the model,
  and no theorem below speaks about one.
\<close>

typedef key = "{s :: jsstring. s \<noteq> ascii ''__proto__''}"
  morphisms key_string Key
  by (rule exI [of _ "[]"]) (simp add: ascii_def)

text \<open>
  The values that \<open>encode\<close> and \<open>decode\<close> dispatch on.  \<open>VOther\<close> stands for
  the values that neither function handles: a number that is not an integer, a bigint,
  a symbol, a function.  An array is the list of its indices, each with an element or a
  hole (\<open>None\<close>): \<open>[ , true]\<close> is \<open>VArr [None, Some (VBool True)]\<close>.  An object
  is a plain object, the list of its own enumerable properties in the order in which
  \<open>for ... in\<close> visits them.  Outside the model: objects that inherit enumerable
  properties, further properties of an array, cyclic structures.
\<close>

datatype jsvalue =
    VUndefined
  | VNull
  | VBool bool
  | VInt int
  | VStr jsstring
  | VBuf buffer
  | VArr "jsvalue option list"
  | VObj "(key \<times> jsvalue) list"
  | VOther

text \<open>
  The source throws \<open>Error\<close> objects that differ in their message only; the model
  names them after the error kinds of the specification:
  \<^item> \<open>UnknownFormat\<close>: \<open>Unknown ${type.type} format\<close> (with the type's name);
  \<^item> \<open>UnencodableValue\<close>: \<open>cannot encode input\<close>;
  \<^item> \<open>MalformedTag\<close>: \<open>Buffer is missing first two type&format fields\<close>;
  \<^item> \<open>InvalidBoolean\<close>: \<open>boolean BFE must be 3 bytes\<close> and \<open>invalid boolean BFE\<close>;
  \<^item> \<open>NoDecoder\<close>: \<open>no decoder defined yet for type: ..., format: ...\<close>;
  \<^item> \<open>UnknownTag\<close>: \<open>Unknown type/ format\<close>;
  \<^item> \<open>UndecodableValue\<close>: \<open>don't know how to decode\<close>.
\<close>

datatype error =
    UnknownFormat string
  | UnencodableValue
  | MalformedTag
  | InvalidBoolean
  | NoDecoder string string
  | UnknownTag
  | UndecodableValue

section \<open>The platform: base64 and UTF-8 of Node's Buffer\<close>

subsection \<open>base64\<close>

text \<open>
  \<open>buf.toString('base64')\<close> writes the standard alphabet with \<open>=\<close> padding.
  \<open>b64_char\<close> is the character of a 6-bit value.
\<close>

definition b64_char :: "nat \<Rightarrow> 16 word" where
  "b64_char n =
     (if n < 26 then of_nat (65 + n)
      else if n < 52 then of_nat (97 + (n - 26))
      else if n < 62 then of_nat (48 + (n - 52))
      else if n = 62 then 43
      else 47)"

fun b64_groups :: "nat list \<Rightarrow> jsstring" where
  "b64_groups (a # b # c # r) =
     [b64_char (a div 4), b64_char ((a mod 4) * 16 + b div 16),
      b64_char ((b mod 16) * 4 + c div 64), b64_char (c mod 64)] @ b64_groups r"
| "b64_groups [a, b] =
     [b64_char (a div 4), b64_char ((a mod 4) * 16 + b div 16),
      b64_char ((b mod 16) * 4), 61]"
| "b64_groups [a] =
     [b64_char (a div 4), b64_char ((a mod 4) * 16), 61, 61]"
| "b64_groups [] = []"

definition base64_encode :: "buffer \<Rightarrow> jsstring" where
  "base64_encode bs = b64_groups (map unat bs)"

text \<open>
  \<open>Buffer.from(s, 'base64')\<close> is lenient.  It reads of each code unit the low byte
  only (\<open>U+0141\<close> is read as \<open>A\<close>, \<open>U+013D\<close> as \<open>=\<close>), accepts the
  standard and the URL-safe alphabet, skips every other character, stops at the first
  \<open>=\<close> and decodes what it has (a last group of two or three characters gives one
  or two bytes).
\<close>

definition low_byte :: "16 word \<Rightarrow> nat" where
  "low_byte c = unat c mod 256"

definition unbase64 :: "16 word \<Rightarrow> nat option" where
  "unbase64 c =
     (let n = low_byte c in
      if 65 \<le> n \<and> n \<le> 90 then Some (n - 65)
      else if 97 \<le> n \<and> n \<le> 122 then Some (n - 97 + 26)
      else if 48 \<le> n \<and> n \<le> 57 then Some (n - 48 + 52)
      else if n = 43 \<or> n = 45 then Some 62
      else if n = 47 \<or> n = 95 then Some 63
      else None)"

fun b64_sextets :: "jsstring \<Rightarrow> nat list" where
  "b64_sextets [] = []"
| "b64_sextets (c # cs) =
     (if low_byte c = 61 then []
      else case unbase64 c of
             Some v \<Rightarrow> v # b64_sextets cs
           | None \<Rightarrow> b64_sextets cs)"

fun b64_bytes :: "nat list \<Rightarrow> buffer" where
  "b64_bytes (a # b # c # d # r) =
     [of_nat (a * 4 + b div 16), of_nat ((b mod 16) * 16 + c div 4),
      of_nat ((c mod 4) * 64 + d)] @ b64_bytes r"
| "b64_bytes [a, b, c] =
     [of_nat (a * 4 + b div 16), of_nat ((b mod 16) * 16 + c div 4)]"
| "b64_bytes [a, b] = [of_nat (a * 4 + b div 16)]"
| "b64_bytes [a] = []"
| "b64_bytes [] = []"

definition base64_decode :: "jsstring \<Rightarrow> buffer" where
  "base64_decode s = b64_bytes (b64_sextets s)"

subsection \<open>UTF-8\<close>

text \<open>
  \<open>Buffer.from(s, 'utf8')\<close> encodes the code points of the string; a surrogate pair
  is one code point, and a surrogate that has no partner is written as U+FFFD
  (\<open>EF BF BD\<close>).
\<close>

definition is_high_surrogate :: "16 word \<Rightarrow> bool" where
  "is_high_surrogate c = (55296 \<le> unat c \<and> unat c < 56320)"

definition is_low_surrogate :: "16 word \<Rightarrow> bool" where
  "is_low_surrogate c = (56320 \<le> unat c \<and> unat c < 57344)"

definition utf8_bytes :: "nat \<Rightarrow> buffer" where
  "utf8_bytes cp =
     (if cp < 128 then [of_nat cp]
      else if cp < 2048 then [of_nat (192 + cp div 64), of_nat (128 + cp mod 64)]
      else if cp < 65536 then
        [of_nat (224 + cp div 4096), of_nat (128 + (cp div 64) mod 64),
         of_nat (128 + cp mod 64)]
      else
        [of_nat (240 + cp div 262144), of_nat (128 + (cp div 4096) mod 64),
         of_nat (128 + (cp div 64) mod 64), of_nat (128 + cp mod 64)])"

fun utf8_encode :: "jsstring \<Rightarrow> buffer" where
  "utf8_encode [] = []"
| "utf8_encode [c] =
     (if is_high_surrogate c \<or> is_low_surrogate c then utf8_bytes 65533
      else utf8_bytes (unat c))"
| "utf8_encode (c # d # cs) =
     (if is_high_surrogate c then
        (if is_low_surrogate d
         then utf8_bytes (65536 + (unat c - 55296) * 1024 + (unat d - 56320)) @ utf8_encode cs
         else utf8_bytes 65533 @ utf8_encode (d # cs))
      else if is_low_surrogate c then utf8_bytes 65533 @ utf8_encode (d # cs)
      else utf8_bytes (unat c) @ utf8_encode (d # cs))"

text \<open>
  \<open>buf.toString('utf8')\<close> decodes the bytes; a code point above U+FFFF becomes a
  surrogate pair, and every ill-formed sequence (a stray continuation byte, an overlong
  or surrogate encoding, a code point above U+10FFFF, a truncated sequence) becomes
  U+FFFD, decoding resuming at the byte that broke the sequence.
\<close>

definition code_units :: "nat \<Rightarrow> jsstring" where
  "code_units cp =
     (if cp < 65536 then [of_nat cp]
      else [of_nat (55296 + (cp - 65536) div 1024), of_nat (56320 + (cp - 65536) mod 1024)])"

definition is_cont :: "nat \<Rightarrow> nat \<Rightarrow> byte \<Rightarrow> bool" where
  "is_cont lo hi b = (lo \<le> unat b \<and> unat b \<le> hi)"

fun utf8_decode :: "buffer \<Rightarrow> jsstring" where
  "utf8_decode [] = []"
| "utf8_decode (b # bs) =
     (let n = unat b in
      if n < 128 then of_nat n # utf8_decode bs
      else if 194 \<le> n \<and> n \<le> 223 then
        (case bs of
           b1 # r \<Rightarrow>
             if is_cont 128 191 b1
             then code_units ((n - 192) * 64 + (unat b1 - 128)) @ utf8_decode r
             else 65533 # utf8_decode bs
         | [] \<Rightarrow> [65533])
      else if 224 \<le> n \<and> n \<le> 239 then
        (case bs of
           b1 # r \<Rightarrow>
             if is_cont (if n = 224 then 160 else 128) (if n = 237 then 159 else 191) b1
             then (case r of
                     b2 # r' \<Rightarrow>
                       if is_cont 128 191 b2
                       then code_units ((n - 224) * 4096 + (unat b1 - 128) * 64
                                         + (unat b2 - 128)) @ utf8_decode r'
                       else 65533 # utf8_decode r
                   | [] \<Rightarrow> [65533])
             else 65533 # utf8_decode bs
         | [] \<Rightarrow> [65533])
      else if 240 \<le> n \<and> n \<le> 244 then
        (case bs of
           b1 # r \<Rightarrow>
             if is_cont (if n = 240 then 144 else 128) (if n = 244 then 143 else 191) b1
             then (case r of
                     b2 # r' \<Rightarrow>
                       if is_cont 128 191 b2
                       then (case r' of
                               b3 # r'' \<Rightarrow>
                                 if is_cont 128 191 b3
                                 then code_units ((n - 240) * 262144 + (unat b1 - 128) * 4096
                                        + (unat b2 - 128) * 64 + (unat b3 - 128))
                                      @ utf8_decode r''
                                 else 65533 # utf8_decode r'
                             | [] \<Rightarrow> [65533])
                       else 65533 # utf8_decode r
                   | [] \<Rightarrow> [65533])
             else 65533 # utf8_decode bs
         | [] \<Rightarrow> [65533])
      else 65533 # utf8_decode bs)"

section \<open>The module \<open>index.js\<close>\<close>

subsection \<open>JavaScript helpers\<close>

text \<open>
  \<open>if (type.sigil)\<close> holds for a string that is present and not empty;
  \<open>type.sigil || ''\<close> is the string, or the empty string when it is missing.
\<close>

definition truthy :: "jsstring option \<Rightarrow> bool" where
  "truthy x = (case x of None \<Rightarrow> False | Some s \<Rightarrow> s \<noteq> [])"

definition or_empty :: "jsstring option \<Rightarrow> jsstring" where
  "or_empty x = (case x of None \<Rightarrow> [] | Some s \<Rightarrow> s)"

definition startsWith :: "jsstring \<Rightarrow> jsstring \<Rightarrow> bool" where
  "startsWith s p = (take (length p) s = p)"

definition endsWith :: "jsstring \<Rightarrow> jsstring \<Rightarrow> bool" where
  "endsWith s x = (length x \<le> length s \<and> drop (length s - length x) s = x)"

subsection \<open>The helpers of \<open>./util\<close> and the constants of the module\<close>

text \<open>
  Modelled from the spec: \<open>decorateBFE\<close> of \<open>./util\<close> (the Registry Builder), which
  is not among the sources.  It keeps the table with its one-byte codes and fails, when
  the module is loaded, if two types share a code or two formats of one type share a
  code.
\<close>

definition decorateBFE :: "type_def list \<Rightarrow> type_def list option" where
  "decorateBFE definitions =
     (if distinct (map type_code definitions)
         \<and> list_all (\<lambda>t. distinct (map format_code (formats t))) definitions
      then Some definitions else None)"

text \<open>
  Modelled from the spec: \<open>definitionsToDict\<close> of \<open>./util\<close> (the Named Lookup), which
  is not among the sources.  It indexes the types by name and the formats of a type by
  name; \<open>named_type\<close> is \<open>NAMED_TYPES[name]\<close> and \<open>named_format\<close> is
  \<open>NAMED_TYPES[...].formats[name]\<close>.  As in a JavaScript object filled entry by entry,
  a later entry of the same name replaces an earlier one.
\<close>

definition named_type :: "type_def list \<Rightarrow> string \<Rightarrow> type_def option" where
  "named_type definitions name =
     map_of (rev (map (\<lambda>t. (type_name t, t)) definitions)) name"

definition named_format :: "type_def \<Rightarrow> string \<Rightarrow> format_def option" where
  "named_format t name =
     map_of (rev (map (\<lambda>f. (format_name f, f)) (formats t))) name"

text \<open>
  Modelled from the spec: \<open>findClassicTypeFormat\<close> of \<open>./util\<close> (the Classic
  Matcher), which is not among the sources.  The type is the first one of the table that
  declares a sigil which is a prefix of the string; the format is the first one of that
  type that declares a suffix which is a suffix of the string without the sigil.  A
  sigil or suffix is declared when \<open>index.js\<close> takes it as present: a string that
  is not empty.  The result is the pair \<open>{ type, format }\<close>, each missing when
  nothing matched.
\<close>

definition type_matches :: "jsstring \<Rightarrow> type_def \<Rightarrow> bool" where
  "type_matches input t = (truthy (sigil t) \<and> startsWith input (or_empty (sigil t)))"

definition format_matches :: "jsstring \<Rightarrow> format_def \<Rightarrow> bool" where
  "format_matches rest f = (truthy (suffix f) \<and> endsWith rest (or_empty (suffix f)))"

definition findClassicTypeFormat ::
  "jsstring \<Rightarrow> type_def list \<Rightarrow> type_def option \<times> format_def option" where
  "findClassicTypeFormat input types =
     (case find (type_matches input) types of
        None \<Rightarrow> (None, None)
      | Some t \<Rightarrow>
          (Some t,
           find (format_matches (drop (length (or_empty (sigil t))) input)) (formats t)))"

text \<open>
  The constants that \<open>index.js\<close> computes when it is loaded: \<open>TYPES\<close>,
  \<open>STRING_TF\<close>, \<open>NIL_TF\<close> and \<open>BOOL.TF\<close>.  \<open>toTF\<close> reads the codes of a named
  type and format; where the name is missing the source reads a property of
  \<open>undefined\<close>, a TypeError that stops the loading: \<open>load\<close> is \<open>None\<close> then and
  there is no \<open>encode\<close> or \<open>decode\<close> to call.
\<close>

definition toTF :: "type_def list \<Rightarrow> string \<Rightarrow> string \<Rightarrow> buffer option" where
  "toTF definitions type format =
     (case named_type definitions type of
        None \<Rightarrow> None
      | Some t \<Rightarrow>
          (case named_format t format of
             None \<Rightarrow> None
           | Some f \<Rightarrow> Some [type_code t, format_code f]))"

record bfe_module =
  TYPES :: "type_def list"
  STRING_TF :: buffer
  NIL_TF :: buffer
  BOOL_TF :: buffer

definition BOOL_TRUE :: buffer where
  "BOOL_TRUE = [1]"

definition BOOL_FALSE :: buffer where
  "BOOL_FALSE = [0]"

definition load :: "type_def list \<Rightarrow> bfe_module option" where
  "load definitions =
     (case decorateBFE definitions of
        None \<Rightarrow> None
      | Some types \<Rightarrow>
     (case toTF definitions ''generic'' ''UTF8 string'' of
        None \<Rightarrow> None
      | Some string_tf \<Rightarrow>
     (case toTF definitions ''generic'' ''nil'' of
        None \<Rightarrow> None
      | Some nil_tf \<Rightarrow>
     (case toTF definitions ''generic'' ''boolean'' of
        None \<Rightarrow> None
      | Some bool_tf \<Rightarrow>
          Some \<lparr>TYPES = types, STRING_TF = string_tf, NIL_TF = nil_tf,
                BOOL_TF = bool_tf\<rparr>))))"

subsection \<open>\<open>encode\<close>\<close>

definition encoder_boolean :: "bfe_module \<Rightarrow> bool \<Rightarrow> buffer" where
  "encoder_boolean m input =
     (let d = (if input then BOOL_TRUE else BOOL_FALSE) in BOOL_TF m @ d)"

text \<open>
  \<open>data.slice(1)\<close> drops one code unit whatever the length of the sigil;
  \<open>data.slice(0, -n)\<close> with \<open>n > 0\<close> drops the last \<open>n\<close> code units, and gives
  the empty string when there are fewer.
\<close>

definition encoder_sigilSuffix :: "jsstring \<Rightarrow> type_def \<Rightarrow> format_def \<Rightarrow> buffer" where
  "encoder_sigilSuffix input t f =
     (let data = input;
          data = (if truthy (sigil t) then drop 1 data else data);
          data = (if truthy (suffix f)
                  then take (length data - length (or_empty (suffix f))) data
                  else data)
      in [type_code t] @ [format_code f] @ base64_decode data)"

definition encoder_string :: "bfe_module \<Rightarrow> jsstring \<Rightarrow> buffer" where
  "encoder_string m input = STRING_TF m @ utf8_encode input"

definition encoder_nil :: "bfe_module \<Rightarrow> buffer" where
  "encoder_nil m = NIL_TF m"

definition encode_string :: "bfe_module \<Rightarrow> jsstring \<Rightarrow> error + jsvalue" where
  "encode_string m input =
     (case findClassicTypeFormat input (TYPES m) of
        (Some t, Some f) \<Rightarrow> Inr (VBuf (encoder_sigilSuffix input t f))
      | (Some t, None) \<Rightarrow> Inl (UnknownFormat (type_name t))
      | (None, _) \<Rightarrow> Inr (VBuf (encoder_string m input)))"

text \<open>
  \<open>encode_string\<close> is the branch of \<open>encode\<close> for a string.
  In \<open>encode\<close> itself, \<open>encode_elems\<close> is \<open>input.map\<close> with its callback: it
  goes through the indices from left to right, calls the callback on an element and
  leaves a hole where the input has a hole.  \<open>encode_props\<close> is the \<open>for ... in\<close>
  loop that fills \<open>output\<close>.  The first exception thrown ends both.
\<close>

fun encode :: "bfe_module \<Rightarrow> jsvalue \<Rightarrow> error + jsvalue"
  and encode_elems ::
    "bfe_module \<Rightarrow> jsvalue option list \<Rightarrow> error + jsvalue option list"
  and encode_props ::
    "bfe_module \<Rightarrow> (key \<times> jsvalue) list \<Rightarrow> error + (key \<times> jsvalue) list"
  where
  "encode m VUndefined = Inr VUndefined"
| "encode m (VBuf b) = Inr (VBuf b)"
| "encode m (VInt i) = Inr (VInt i)"
| "encode m (VStr s) = encode_string m s"
| "encode m (VBool b) = Inr (VBuf (encoder_boolean m b))"
| "encode m VNull = Inr (VBuf (encoder_nil m))"
| "encode m (VArr xs) =
     (case encode_elems m xs of Inl e \<Rightarrow> Inl e | Inr ys \<Rightarrow> Inr (VArr ys))"
| "encode m (VObj ps) =
     (case encode_props m ps of Inl e \<Rightarrow> Inl e | Inr qs \<Rightarrow> Inr (VObj qs))"
| "encode m VOther = Inl UnencodableValue"
| "encode_elems m [] = Inr []"
| "encode_elems m (None # xs) =
     (case encode_elems m xs of Inl e \<Rightarrow> Inl e | Inr ys \<Rightarrow> Inr (None # ys))"
| "encode_elems m (Some x # xs) =
     (case encode m x of
        Inl e \<Rightarrow> Inl e
      | Inr y \<Rightarrow>
          (case encode_elems m xs of
             Inl e \<Rightarrow> Inl e
           | Inr ys \<Rightarrow>
               Inr (Some (if y = VUndefined then VBuf (encoder_nil m) else y) # ys)))"
| "encode_props m [] = Inr []"
| "encode_props m ((key, x) # ps) =
     (case encode m x of
        Inl e \<Rightarrow> Inl e
      | Inr y \<Rightarrow>
          (case encode_props m ps of
             Inl e \<Rightarrow> Inl e
           | Inr qs \<Rightarrow> Inr (if y \<noteq> VUndefined then (key, y) # qs else qs)))"

subsection \<open>\<open>decode\<close>\<close>

definition decoder_sigilSuffix :: "buffer \<Rightarrow> type_def \<Rightarrow> format_def \<Rightarrow> jsstring" where
  "decoder_sigilSuffix input t f =
     or_empty (sigil t) @ base64_encode (drop 2 input) @ or_empty (suffix f)"

text \<open>
  \<open>decoder.bool\<close> reads \<open>input.size\<close>.  A Buffer has a \<open>length\<close> and no
  \<open>size\<close>: the property is \<open>undefined\<close>, and \<open>undefined > 3\<close> is false.
\<close>

definition buffer_size :: "buffer \<Rightarrow> nat option" where
  "buffer_size input = None"

definition js_gt :: "nat option \<Rightarrow> nat \<Rightarrow> bool" where
  "js_gt x n = (case x of None \<Rightarrow> False | Some k \<Rightarrow> k > n)"

definition decoder_bool :: "buffer \<Rightarrow> error + jsvalue" where
  "decoder_bool input =
     (if js_gt (buffer_size input) 3 then Inl InvalidBoolean
      else if take 1 (drop 2 input) = BOOL_FALSE then Inr (VBool False)
      else if take 1 (drop 2 input) = BOOL_TRUE then Inr (VBool True)
      else Inl InvalidBoolean)"

definition decoder_string :: "buffer \<Rightarrow> jsstring" where
  "decoder_string input = utf8_decode (drop 2 input)"

text \<open>\<open>decode_buffer\<close> is the branch of \<open>decode\<close> for a Buffer.\<close>

definition decode_buffer :: "bfe_module \<Rightarrow> buffer \<Rightarrow> error + jsvalue" where
  "decode_buffer m input =
     (if length input < 2 then Inl MalformedTag
      else if input = NIL_TF m then Inr VNull
      else if take 2 input = BOOL_TF m then decoder_bool input
      else if take 2 input = STRING_TF m then Inr (VStr (decoder_string input))
      else
        (case find (\<lambda>t. [type_code t] = take 1 input) (TYPES m) of
           Some t \<Rightarrow>
             (case find (\<lambda>f. [format_code f] = take 1 (drop 1 input)) (formats t) of
                Some f \<Rightarrow>
                  if truthy (sigil t) \<or> truthy (suffix f)
                  then Inr (VStr (decoder_sigilSuffix input t f))
                  else Inl (NoDecoder (type_name t) (format_name f))
              | None \<Rightarrow> Inl (UnknownFormat (type_name t)))
         | None \<Rightarrow> Inl UnknownTag))"

fun decode :: "bfe_module \<Rightarrow> jsvalue \<Rightarrow> error + jsvalue"
  and decode_elems ::
    "bfe_module \<Rightarrow> jsvalue option list \<Rightarrow> error + jsvalue option list"
  and decode_props ::
    "bfe_module \<Rightarrow> (key \<times> jsvalue) list \<Rightarrow> error + (key \<times> jsvalue) list"
  where
  "decode m VNull = Inr VNull"
| "decode m (VInt i) = Inr (VInt i)"
| "decode m (VBuf input) = decode_buffer m input"
| "decode m (VArr xs) =
     (case decode_elems m xs of Inl e \<Rightarrow> Inl e | Inr ys \<Rightarrow> Inr (VArr ys))"
| "decode m (VObj ps) =
     (case decode_props m ps of Inl e \<Rightarrow> Inl e | Inr qs \<Rightarrow> Inr (VObj qs))"
| "decode m VUndefined = Inl UndecodableValue"
| "decode m (VBool b) = Inl UndecodableValue"
| "decode m (VStr s) = Inl UndecodableValue"
| "decode m VOther = Inl UndecodableValue"
| "decode_elems m [] = Inr []"
| "decode_elems m (None # xs) =
     (case decode_elems m xs of Inl e \<Rightarrow> Inl e | Inr ys \<Rightarrow> Inr (None # ys))"
| "decode_elems m (Some x # xs) =
     (case decode m x of
        Inl e \<Rightarrow> Inl e
      | Inr y \<Rightarrow>
          (case decode_elems m xs of Inl e \<Rightarrow> Inl e | Inr ys \<Rightarrow> Inr (Some y # ys)))"
| "decode_props m [] = Inr []"
| "decode_props m ((key, x) # ps) =
     (case decode m x of
        Inl e \<Rightarrow> Inl e
      | Inr y \<Rightarrow>
          (case decode_props m ps of Inl e \<Rightarrow> Inl e | Inr qs \<Rightarrow> Inr ((key, y) # qs)))"

subsection \<open>A registry\<close>

text \<open>
  Modelled from the spec: \<open>bfe.json\<close>, which is not among the sources.  The theorems
  below hold for every table; this one, used where a concrete table is needed, has the
  message type of the specification's scenario and of the test (code 1, sigil \<open>%\<close>,
  format 0 with suffix \<open>.sha256\<close> and format 4 with suffix \<open>.bbmsg-v1\<close>), a feed
  type, and the generic type with the three formats that \<open>index.js\<close> names.
\<close>

definition feed_type :: type_def where
  "feed_type =
     \<lparr>type_name = ''feed'', type_code = 0, sigil = Some (ascii ''@''),
      formats = [\<lparr>format_name = ''classic'', format_code = 0,
                  suffix = Some (ascii ''.ed25519'')\<rparr>]\<rparr>"

definition msg_classic :: format_def where
  "msg_classic =
     \<lparr>format_name = ''classic'', format_code = 0, suffix = Some (ascii ''.sha256'')\<rparr>"

definition msg_bendy_butt :: format_def where
  "msg_bendy_butt =
     \<lparr>format_name = ''bendy-butt'', format_code = 4, suffix = Some (ascii ''.bbmsg-v1'')\<rparr>"

definition msg_type :: type_def where
  "msg_type =
     \<lparr>type_name = ''msg'', type_code = 1, sigil = Some (ascii ''%''),
      formats = [msg_classic, msg_bendy_butt]\<rparr>"

definition generic_string :: format_def where
  "generic_string = \<lparr>format_name = ''UTF8 string'', format_code = 0, suffix = None\<rparr>"

definition generic_boolean :: format_def where
  "generic_boolean = \<lparr>format_name = ''boolean'', format_code = 1, suffix = None\<rparr>"

definition generic_nil :: format_def where
  "generic_nil = \<lparr>format_name = ''nil'', format_code = 2, suffix = None\<rparr>"

definition generic_type :: type_def where
  "generic_type =
     \<lparr>type_name = ''generic'', type_code = 6, sigil = None,
      formats = [generic_string, generic_boolean, generic_nil]\<rparr>"

definition bfe_json :: "type_def list" where
  "bfe_json = [feed_type, msg_type, generic_type]"

definition bfe :: bfe_module where
  "bfe = \<lparr>TYPES = bfe_json, STRING_TF = [6, 0], NIL_TF = [6, 2], BOOL_TF = [6, 1]\<rparr>"

section \<open>Notions of the specification\<close>

text \<open>
  The payload of a string that a type and a format match: what stands between the sigil
  and the suffix.
\<close>

definition payload_between :: "jsstring \<Rightarrow> type_def \<Rightarrow> format_def \<Rightarrow> jsstring" where
  "payload_between input t f =
     take (length input - length (or_empty (sigil t)) - length (or_empty (suffix f)))
       (drop (length (or_empty (sigil t))) input)"

text \<open>\<open>decode(encode(v))\<close>, an exception of either call ending the computation.\<close>

definition decode_encode :: "bfe_module \<Rightarrow> jsvalue \<Rightarrow> error + jsvalue" where
  "decode_encode m v = (case encode m v of Inl e \<Rightarrow> Inl e | Inr w \<Rightarrow> decode m w)"

text \<open>A Unicode scalar value: a code point that is not a surrogate.\<close>

definition scalar :: "nat \<Rightarrow> bool" where
  "scalar cp = (cp < 55296 \<or> (57344 \<le> cp \<and> cp < 1114112))"

text \<open>
  A string is well formed when each of its surrogates is half of a pair, a high
  surrogate followed by a low one.
\<close>

fun well_formed :: "jsstring \<Rightarrow> bool" where
  "well_formed [] = True"
| "well_formed [c] = (\<not> is_high_surrogate c \<and> \<not> is_low_surrogate c)"
| "well_formed (c # d # cs) =
     (if is_high_surrogate c then is_low_surrogate d \<and> well_formed cs
      else \<not> is_low_surrogate c \<and> well_formed (d # cs))"

text \<open>
  A base64 text is canonical when it is the text that \<open>toString('base64')\<close> writes
  for the bytes that it stands for.
\<close>

definition canonical_base64 :: "jsstring \<Rightarrow> bool" where
  "canonical_base64 p = (base64_encode (base64_decode p) = p)"

text \<open>
  The values that \<open>decode\<close> gives back as they were: null, booleans, integers, the
  strings that no sigil matches and that are well formed, the strings that a type and a
  format match with a sigil of one character around a canonical base64 payload, and the
  arrays (with or without holes) and objects of such values.
\<close>

definition faithful_string :: "bfe_module \<Rightarrow> jsstring \<Rightarrow> bool" where
  "faithful_string m s =
     (case findClassicTypeFormat s (TYPES m) of
        (None, _) \<Rightarrow> well_formed s
      | (Some t, None) \<Rightarrow> False
      | (Some t, Some f) \<Rightarrow>
          length (or_empty (sigil t)) = 1 \<and> canonical_base64 (payload_between s t f))"

fun faithful :: "bfe_module \<Rightarrow> jsvalue \<Rightarrow> bool"
  and faithful_elems :: "bfe_module \<Rightarrow> jsvalue option list \<Rightarrow> bool"
  and faithful_props :: "bfe_module \<Rightarrow> (key \<times> jsvalue) list \<Rightarrow> bool"
  where
  "faithful m VNull = True"
| "faithful m (VBool b) = True"
| "faithful m (VInt i) = True"
| "faithful m (VStr s) = faithful_string m s"
| "faithful m (VArr xs) = faithful_elems m xs"
| "faithful m (VObj ps) = faithful_props m ps"
| "faithful m VUndefined = False"
| "faithful m (VBuf b) = False"
| "faithful m VOther = False"
| "faithful_elems m [] = True"
| "faithful_elems m (None # xs) = faithful_elems m xs"
| "faithful_elems m (Some x # xs) = (faithful m x \<and> faithful_elems m xs)"
| "faithful_props m [] = True"
| "faithful_props m ((key, x) # ps) = (faithful m x \<and> faithful_props m ps)"

section \<open>Properties\<close>

subsection \<open>base64: decoding what was encoded\<close>

lemma unat_of_nat8: "n < 256 \<Longrightarrow> unat (of_nat n :: 8 word) = n"
  by (simp add: unat_of_nat)

lemma unat_of_nat16: "n < 65536 \<Longrightarrow> unat (of_nat n :: 16 word) = n"
  by (simp add: unat_of_nat)

lemma unat8_less: "unat (b :: 8 word) < 256"
  using unsigned_less [of b, where 'a = nat] by simp

lemma unat16_less: "unat (c :: 16 word) < 65536"
  using unsigned_less [of c, where 'a = nat] by simp

lemma unat_b64_char:
  assumes "n < 64"
  shows "unat (b64_char n) =
     (if n < 26 then 65 + n else if n < 52 then 71 + n else if n < 62 then n - 4
      else if n = 62 then 43 else 47)"
proof -
  have "b64_char n = of_nat (if n < 26 then 65 + n else if n < 52 then 71 + n
      else if n < 62 then n - 4 else if n = 62 then 43 else 47)"
    unfolding b64_char_def by (simp del: of_nat_add of_nat_diff)
  also have "unat \<dots> = (if n < 26 then 65 + n else if n < 52 then 71 + n
      else if n < 62 then n - 4 else if n = 62 then 43 else 47)"
    using assms by (intro unat_of_nat16) (simp, arith)
  finally show ?thesis .
qed

lemma low_byte_b64_char: "n < 64 \<Longrightarrow> low_byte (b64_char n) = unat (b64_char n)"
  unfolding low_byte_def by (simp only: unat_b64_char) (simp; arith)

lemma unbase64_b64_char: "n < 64 \<Longrightarrow> unbase64 (b64_char n) = Some n"
  unfolding unbase64_def Let_def
  by (simp only: low_byte_b64_char unat_b64_char) (simp; arith)

lemma b64_char_not_pad: "n < 64 \<Longrightarrow> low_byte (b64_char n) \<noteq> 61"
  by (simp only: low_byte_b64_char unat_b64_char) (simp; arith)

lemma b64_sextets_char:
  "n < 64 \<Longrightarrow> b64_sextets (b64_char n # cs) = n # b64_sextets cs"
  by (simp add: unbase64_b64_char b64_char_not_pad)

lemma b64_arith3:
  fixes a b c :: nat
  assumes "a < 256" "b < 256" "c < 256"
  shows "a div 4 * 4 + ((a mod 4) * 16 + b div 16) div 16 = a"
    and "(((a mod 4) * 16 + b div 16) mod 16) * 16 + ((b mod 16) * 4 + c div 64) div 4 = b"
    and "(((b mod 16) * 4 + c div 64) mod 4) * 64 + c mod 64 = c"
proof -
  have b16: "b div 16 < 16" and c64: "c div 64 < 4" using assms by simp_all
  have 1: "((a mod 4) * 16 + b div 16) div 16 = a mod 4"
    using b16 by simp
  have 2: "((a mod 4) * 16 + b div 16) mod 16 = b div 16"
    using b16 by simp
  have 3: "((b mod 16) * 4 + c div 64) div 4 = b mod 16"
    using c64 by simp
  have 4: "((b mod 16) * 4 + c div 64) mod 4 = c div 64"
    using c64 by simp
  show "a div 4 * 4 + ((a mod 4) * 16 + b div 16) div 16 = a"
    unfolding 1 by simp
  show "(((a mod 4) * 16 + b div 16) mod 16) * 16 + ((b mod 16) * 4 + c div 64) div 4 = b"
    unfolding 2 3 by simp
  show "(((b mod 16) * 4 + c div 64) mod 4) * 64 + c mod 64 = c"
    unfolding 4 by simp
qed

lemma b64_sextets_pad: "b64_sextets (61 # cs) = []"
  by (simp add: low_byte_def)

lemma b64_roundtrip_nat:
  "\<forall>n \<in> set ns. n < 256 \<Longrightarrow> b64_bytes (b64_sextets (b64_groups ns)) = map of_nat ns"
proof (induction ns rule: b64_groups.induct)
  case (1 a b c r)
  then have lt: "a < 256" "b < 256" "c < 256" by simp_all
  have s: "a div 4 < 64" "(a mod 4) * 16 + b div 16 < 64" "(b mod 16) * 4 + c div 64 < 64"
    "c mod 64 < 64"
    using lt by simp_all
  from 1 have ih: "b64_bytes (b64_sextets (b64_groups r)) = map of_nat r" by simp
  have sx: "b64_sextets (b64_groups (a # b # c # r)) =
      a div 4 # ((a mod 4) * 16 + b div 16) # ((b mod 16) * 4 + c div 64) # c mod 64
        # b64_sextets (b64_groups r)"
    by (simp only: b64_groups.simps append_Cons append_Nil b64_sextets_char s)
  show ?case
    by (simp only: sx b64_bytes.simps b64_arith3 [OF lt] ih list.map append_Cons append_Nil)
next
  case (2 a b)
  then have lt: "a < 256" "b < 256" and z: "(0::nat) < 256" by simp_all
  have s: "a div 4 < 64" "(a mod 4) * 16 + b div 16 < 64" "(b mod 16) * 4 < 64"
    using lt by simp_all
  have sx: "b64_sextets (b64_groups [a, b]) =
      [a div 4, (a mod 4) * 16 + b div 16, (b mod 16) * 4]"
    by (simp only: b64_groups.simps b64_sextets_char s b64_sextets_pad)
  have e: "(((a mod 4) * 16 + b div 16) mod 16) * 16 + ((b mod 16) * 4) div 4 = b"
    using b64_arith3(2) [OF lt z] by simp
  show ?case
    by (simp only: sx b64_bytes.simps b64_arith3(1) [OF lt z] e list.map)
next
  case (3 a)
  then have lt: "a < 256" and z: "(0::nat) < 256" by simp_all
  have s: "a div 4 < 64" "(a mod 4) * 16 < 64"
    using lt by simp_all
  have sx: "b64_sextets (b64_groups [a]) = [a div 4, (a mod 4) * 16]"
    by (simp only: b64_groups.simps b64_sextets_char s b64_sextets_pad)
  have e: "a div 4 * 4 + ((a mod 4) * 16) div 16 = a"
    using b64_arith3(1) [OF lt z] by simp
  show ?case
    by (simp only: sx b64_bytes.simps e list.map)
next
  case 4
  show ?case by simp
qed

lemma base64_decode_encode: "base64_decode (base64_encode bs) = bs"
proof -
  have "\<forall>n \<in> set (map unat bs). n < 256" by (simp add: unat8_less)
  then have "b64_bytes (b64_sextets (b64_groups (map unat bs))) = map of_nat (map unat bs)"
    by (rule b64_roundtrip_nat)
  then show ?thesis by (simp add: base64_decode_def base64_encode_def comp_def)
qed

lemma canonical_base64_encode: "canonical_base64 (base64_encode bs)"
  by (simp add: canonical_base64_def base64_decode_encode)

text \<open>
  The low byte of a code unit: \<open>U+0141\<close> counts as \<open>A\<close>, and \<open>U+013D\<close> as
  the \<open>=\<close> that ends the decoding.
\<close>

lemma base64_decode_low_byte:
  "base64_decode ([321] @ ascii ''UJD'') = [1, 66, 67]"
  "base64_decode (ascii ''QUJD'' @ [317] @ ascii ''QUJD'') = [65, 66, 67]"
  by (simp_all add: base64_decode_def unbase64_def low_byte_def ascii_def)

subsection \<open>UTF-8: decoding what was encoded\<close>

lemma utf8_decode_1:
  "unat b0 < 128 \<Longrightarrow> utf8_decode (b0 # r) = of_nat (unat b0) # utf8_decode r"
  by (simp add: Let_def)

lemma utf8_decode_2:
  assumes "194 \<le> unat b0" "unat b0 \<le> 223" "128 \<le> unat b1" "unat b1 \<le> 191"
  shows "utf8_decode (b0 # b1 # r) =
           code_units ((unat b0 - 192) * 64 + (unat b1 - 128)) @ utf8_decode r"
  using assms by (simp add: Let_def is_cont_def)

lemma utf8_decode_3:
  assumes "224 \<le> unat b0" "unat b0 \<le> 239"
    and "128 \<le> unat b1" "unat b1 \<le> 191"
    and "unat b0 = 224 \<Longrightarrow> 160 \<le> unat b1" and "unat b0 = 237 \<Longrightarrow> unat b1 \<le> 159"
    and "128 \<le> unat b2" "unat b2 \<le> 191"
  shows "utf8_decode (b0 # b1 # b2 # r) =
           code_units ((unat b0 - 224) * 4096 + (unat b1 - 128) * 64 + (unat b2 - 128))
             @ utf8_decode r"
  using assms by (simp add: Let_def is_cont_def)

lemma utf8_decode_4:
  assumes "240 \<le> unat b0" "unat b0 \<le> 244"
    and "128 \<le> unat b1" "unat b1 \<le> 191"
    and "unat b0 = 240 \<Longrightarrow> 144 \<le> unat b1" and "unat b0 = 244 \<Longrightarrow> unat b1 \<le> 143"
    and "128 \<le> unat b2" "unat b2 \<le> 191" and "128 \<le> unat b3" "unat b3 \<le> 191"
  shows "utf8_decode (b0 # b1 # b2 # b3 # r) =
           code_units ((unat b0 - 240) * 262144 + (unat b1 - 128) * 4096
                         + (unat b2 - 128) * 64 + (unat b3 - 128))
             @ utf8_decode r"
  using assms by (simp add: Let_def is_cont_def)

lemma utf8_lo3:
  fixes cp :: nat
  assumes "2048 \<le> cp" and "cp div 4096 = 0"
  shows "32 \<le> (cp div 64) mod 64"
proof -
  from assms(2) have "cp < 4096" by (simp add: div_eq_0_iff)
  then have "cp div 64 < 64" by simp
  then have "(cp div 64) mod 64 = cp div 64" by simp
  moreover from assms(1) have "32 \<le> cp div 64" by simp
  ultimately show ?thesis by simp
qed

lemma utf8_hi3:
  fixes cp :: nat
  assumes "cp < 55296 \<or> 57344 \<le> cp" and "cp div 4096 = 13"
  shows "(cp div 64) mod 64 \<le> 31"
proof -
  from assms(2) have r: "53248 \<le> cp" "cp < 57344" by simp_all
  with assms(1) have "cp < 55296" by simp
  then have u: "cp div 64 < 864" by simp
  from r have l: "832 \<le> cp div 64" by simp
  have "(cp div 64) mod 64 = cp div 64 - 832"
    using u l by (simp add: mod_if le_mod_geq)
  with u show ?thesis by simp
qed

lemma div_mod_scale:
  fixes q k :: nat
  shows "q div 64 * (64 * k) + q mod 64 * k = q * k"
proof -
  have "q * k = (q div 64 * 64 + q mod 64) * k" by simp
  also have "\<dots> = q div 64 * (64 * k) + q mod 64 * k"
    by (simp only: distrib_right mult.assoc)
  finally show ?thesis by simp
qed

lemma utf8_split2:
  fixes q :: nat
  shows "q div 64 * 4096 + q mod 64 * 64 = q * 64"
  using div_mod_scale [of q 64] by simp

lemma utf8_split3:
  fixes cp :: nat
  shows "cp div 4096 * 4096 + (cp div 64) mod 64 * 64 + cp mod 64 = cp"
proof -
  have "cp div 4096 = (cp div 64) div 64" by (simp add: div_mult2_eq [symmetric])
  then have "cp div 4096 * 4096 + (cp div 64) mod 64 * 64 = (cp div 64) * 64"
    by (simp only: utf8_split2)
  then show ?thesis by simp
qed

lemma utf8_lo4:
  fixes cp :: nat
  assumes "65536 \<le> cp" and "cp div 262144 = 0"
  shows "16 \<le> (cp div 4096) mod 64"
proof -
  from assms(2) have "cp < 262144" by (simp add: div_eq_0_iff)
  then have "cp div 4096 < 64" by simp
  then have "(cp div 4096) mod 64 = cp div 4096" by simp
  moreover from assms(1) have "16 \<le> cp div 4096" by simp
  ultimately show ?thesis by simp
qed

lemma utf8_hi4:
  fixes cp :: nat
  assumes "cp < 1114112" and "cp div 262144 = 4"
  shows "(cp div 4096) mod 64 \<le> 15"
proof -
  from assms(2) have r: "1048576 \<le> cp" by simp
  from assms(1) have u: "cp div 4096 < 272" by simp
  from r have l: "256 \<le> cp div 4096" by simp
  have "(cp div 4096) mod 64 = cp div 4096 - 256"
    using u l by (simp add: mod_if le_mod_geq)
  with u show ?thesis by simp
qed

lemma utf8_split4:
  fixes cp :: nat
  shows "cp div 262144 * 262144 + (cp div 4096) mod 64 * 4096 + (cp div 64) mod 64 * 64
           + cp mod 64 = cp"
proof -
  have a: "cp div 262144 = (cp div 4096) div 64" by (simp add: div_mult2_eq [symmetric])
  have "cp div 262144 * 262144 + (cp div 4096) mod 64 * 4096 = cp div 4096 * 4096"
    unfolding a using div_mod_scale [of "cp div 4096" 4096] by simp
  then have "cp div 262144 * 262144 + (cp div 4096) mod 64 * 4096 + (cp div 64) mod 64 * 64
           + cp mod 64 = cp div 4096 * 4096 + (cp div 64) mod 64 * 64 + cp mod 64"
    by simp
  then show ?thesis by (simp only: utf8_split3)
qed

lemma surrogate_div:
  fixes h l :: nat
  assumes "l < 1024"
  shows "(h * 1024 + l) div 1024 = h" and "(h * 1024 + l) mod 1024 = l"
  using assms by simp_all

lemma utf8_decode_bytes_1:
  assumes "cp < 128"
  shows "utf8_decode (utf8_bytes cp @ r) = code_units cp @ utf8_decode r"
proof -
  have u: "unat (of_nat cp :: 8 word) = cp" using assms by (simp add: unat_of_nat8)
  have "utf8_decode (of_nat cp # r) = of_nat (unat (of_nat cp :: 8 word)) # utf8_decode r"
    by (rule utf8_decode_1) (simp add: u assms)
  then show ?thesis using assms by (simp add: utf8_bytes_def code_units_def u)
qed

lemma utf8_decode_bytes_2:
  assumes "128 \<le> cp" "cp < 2048"
  shows "utf8_decode (utf8_bytes cp @ r) = code_units cp @ utf8_decode r"
proof -
  define b0 :: "8 word" where "b0 = of_nat (192 + cp div 64)"
  define b1 :: "8 word" where "b1 = of_nat (128 + cp mod 64)"
  have u0: "unat b0 = 192 + cp div 64" unfolding b0_def
    using assms by (intro unat_of_nat8) simp
  have u1: "unat b1 = 128 + cp mod 64" unfolding b1_def
    by (intro unat_of_nat8) simp
  have bytes: "utf8_bytes cp = [b0, b1]"
    using assms by (simp add: utf8_bytes_def b0_def b1_def del: of_nat_add)
  have "utf8_decode (b0 # b1 # r) =
      code_units ((unat b0 - 192) * 64 + (unat b1 - 128)) @ utf8_decode r"
    using assms by (intro utf8_decode_2) (simp_all add: u0 u1)
  moreover have "(unat b0 - 192) * 64 + (unat b1 - 128) = cp"
    by (simp add: u0 u1)
  ultimately show ?thesis by (simp add: bytes)
qed

lemma utf8_decode_bytes_3:
  assumes "2048 \<le> cp" "cp < 65536" "cp < 55296 \<or> 57344 \<le> cp"
  shows "utf8_decode (utf8_bytes cp @ r) = code_units cp @ utf8_decode r"
proof -
  define b0 :: "8 word" where "b0 = of_nat (224 + cp div 4096)"
  define b1 :: "8 word" where "b1 = of_nat (128 + (cp div 64) mod 64)"
  define b2 :: "8 word" where "b2 = of_nat (128 + cp mod 64)"
  have u0: "unat b0 = 224 + cp div 4096" unfolding b0_def
    using assms by (intro unat_of_nat8) simp
  have u1: "unat b1 = 128 + (cp div 64) mod 64" unfolding b1_def
    by (intro unat_of_nat8) simp
  have u2: "unat b2 = 128 + cp mod 64" unfolding b2_def
    by (intro unat_of_nat8) simp
  have bytes: "utf8_bytes cp = [b0, b1, b2]"
    using assms by (simp add: utf8_bytes_def b0_def b1_def b2_def del: of_nat_add)
  have lo: "unat b0 = 224 \<Longrightarrow> 160 \<le> unat b1"
    using utf8_lo3 [OF assms(1)] by (simp add: u0 u1)
  have hi: "unat b0 = 237 \<Longrightarrow> unat b1 \<le> 159"
    using utf8_hi3 [OF assms(3)] by (simp add: u0 u1)
  have "utf8_decode (b0 # b1 # b2 # r) =
      code_units ((unat b0 - 224) * 4096 + (unat b1 - 128) * 64 + (unat b2 - 128))
        @ utf8_decode r"
    using assms lo hi by (intro utf8_decode_3) (simp_all add: u0 u1 u2)
  moreover have "(unat b0 - 224) * 4096 + (unat b1 - 128) * 64 + (unat b2 - 128) = cp"
    unfolding u0 u1 u2 using utf8_split3 [of cp] by simp
  ultimately show ?thesis by (simp add: bytes)
qed

lemma utf8_decode_bytes_4:
  assumes "65536 \<le> cp" "cp < 1114112"
  shows "utf8_decode (utf8_bytes cp @ r) = code_units cp @ utf8_decode r"
proof -
  define b0 :: "8 word" where "b0 = of_nat (240 + cp div 262144)"
  define b1 :: "8 word" where "b1 = of_nat (128 + (cp div 4096) mod 64)"
  define b2 :: "8 word" where "b2 = of_nat (128 + (cp div 64) mod 64)"
  define b3 :: "8 word" where "b3 = of_nat (128 + cp mod 64)"
  have u0: "unat b0 = 240 + cp div 262144" unfolding b0_def
    using assms by (intro unat_of_nat8) simp
  have u1: "unat b1 = 128 + (cp div 4096) mod 64" unfolding b1_def
    by (intro unat_of_nat8) simp
  have u2: "unat b2 = 128 + (cp div 64) mod 64" unfolding b2_def
    by (intro unat_of_nat8) simp
  have u3: "unat b3 = 128 + cp mod 64" unfolding b3_def
    by (intro unat_of_nat8) simp
  have bytes: "utf8_bytes cp = [b0, b1, b2, b3]"
    using assms by (simp add: utf8_bytes_def b0_def b1_def b2_def b3_def del: of_nat_add)
  have lo: "unat b0 = 240 \<Longrightarrow> 144 \<le> unat b1"
    using utf8_lo4 [OF assms(1)] by (simp add: u0 u1)
  have hi: "unat b0 = 244 \<Longrightarrow> unat b1 \<le> 143"
    using utf8_hi4 [OF assms(2)] by (simp add: u0 u1)
  have top: "cp div 262144 \<le> 4" using assms(2) by simp
  have "utf8_decode (b0 # b1 # b2 # b3 # r) =
      code_units ((unat b0 - 240) * 262144 + (unat b1 - 128) * 4096
                    + (unat b2 - 128) * 64 + (unat b3 - 128))
        @ utf8_decode r"
    using top lo hi by (intro utf8_decode_4) (simp_all add: u0 u1 u2 u3)
  moreover have "(unat b0 - 240) * 262144 + (unat b1 - 128) * 4096
                    + (unat b2 - 128) * 64 + (unat b3 - 128) = cp"
    unfolding u0 u1 u2 u3 using utf8_split4 [of cp] by simp
  ultimately show ?thesis by (simp add: bytes)
qed

lemma utf8_decode_bytes:
  assumes "scalar cp"
  shows "utf8_decode (utf8_bytes cp @ r) = code_units cp @ utf8_decode r"
proof -
  consider "cp < 128" | "128 \<le> cp" "cp < 2048" | "2048 \<le> cp" "cp < 65536"
    | "65536 \<le> cp"
    by linarith
  then show ?thesis
  proof cases
    case 1
    then show ?thesis by (rule utf8_decode_bytes_1)
  next
    case 2
    then show ?thesis by (rule utf8_decode_bytes_2)
  next
    case 3
    with assms have "cp < 55296 \<or> 57344 \<le> cp" by (auto simp: scalar_def)
    with 3 show ?thesis by (intro utf8_decode_bytes_3)
  next
    case 4
    with assms have "cp < 1114112" by (auto simp: scalar_def)
    with 4 show ?thesis by (intro utf8_decode_bytes_4)
  qed
qed

lemma code_units_bmp:
  "code_units (unat (c :: 16 word)) = [c]"
  by (simp add: code_units_def unat16_less)

lemma scalar_bmp:
  "\<not> is_high_surrogate c \<Longrightarrow> \<not> is_low_surrogate c \<Longrightarrow> scalar (unat c)"
  using unat16_less [of c]
  by (auto simp: scalar_def is_high_surrogate_def is_low_surrogate_def)

lemma surrogate_pair:
  assumes "is_high_surrogate c" "is_low_surrogate d"
  defines "cp \<equiv> 65536 + (unat c - 55296) * 1024 + (unat d - 56320)"
  shows "scalar cp" and "code_units cp = [c, d]"
proof -
  define h where "h = unat c - 55296"
  define l where "l = unat d - 56320"
  from assms(1) have h: "h < 1024" "unat c = 55296 + h"
    by (auto simp: h_def is_high_surrogate_def)
  from assms(2) have l: "l < 1024" "unat d = 56320 + l"
    by (auto simp: l_def is_low_surrogate_def)
  have cp: "cp = 65536 + (h * 1024 + l)" by (simp add: cp_def h_def l_def)
  from h(1) have "h * 1024 \<le> 1023 * 1024" by simp
  with l(1) have "h * 1024 + l < 1048576" by simp
  then show "scalar cp" by (simp add: cp scalar_def)
  have "55296 + (cp - 65536) div 1024 = unat c"
    unfolding cp using surrogate_div(1) [OF l(1), of h] h(2) by simp
  moreover have "56320 + (cp - 65536) mod 1024 = unat d"
    unfolding cp using surrogate_div(2) [OF l(1), of h] l(2) by simp
  moreover have "\<not> cp < 65536" by (simp add: cp)
  ultimately show "code_units cp = [c, d]"
    by (simp add: code_units_def del: of_nat_add)
qed

lemma utf8_decode_encode:
  "well_formed s \<Longrightarrow> utf8_decode (utf8_encode s) = s"
proof (induction s rule: utf8_encode.induct)
  case 1
  show ?case by simp
next
  case (2 c)
  then have "scalar (unat c)" by (simp add: scalar_bmp)
  from utf8_decode_bytes [OF this, of "[]"] 2 show ?case
    by (simp add: code_units_bmp)
next
  case (3 c d cs)
  show ?case
  proof (cases "is_high_surrogate c")
    case True
    with 3 have low: "is_low_surrogate d" and wf: "well_formed cs" by simp_all
    from 3 True low wf have ih: "utf8_decode (utf8_encode cs) = cs" by simp
    from surrogate_pair [OF True low] utf8_decode_bytes ih True low
    show ?thesis by simp
  next
    case False
    with 3 have nl: "\<not> is_low_surrogate c" and wf: "well_formed (d # cs)" by simp_all
    from 3 False nl wf have ih: "utf8_decode (utf8_encode (d # cs)) = d # cs" by simp
    from utf8_decode_bytes [OF scalar_bmp [OF False nl]] ih False nl
    show ?thesis by (simp add: code_units_bmp)
  qed
qed

subsection \<open>The constants of a loaded module\<close>

lemma named_type_mem:
  "named_type definitions name = Some t \<Longrightarrow> t \<in> set definitions \<and> type_name t = name"
  unfolding named_type_def by (auto dest!: map_of_SomeD)

lemma named_format_mem:
  "named_format t name = Some f \<Longrightarrow> f \<in> set (formats t) \<and> format_name f = name"
  unfolding named_format_def by (auto dest!: map_of_SomeD)

lemma load_TYPES: "load definitions = Some m \<Longrightarrow> TYPES m = definitions"
  by (auto simp: load_def decorateBFE_def split: option.splits if_splits)

lemma load_distinct:
  "load definitions = Some m \<Longrightarrow>
     distinct (map type_code definitions) \<and>
     (\<forall>t \<in> set definitions. distinct (map format_code (formats t)))"
  by (auto simp: load_def decorateBFE_def list_all_iff split: option.splits if_splits)

lemma load_tags:
  assumes "load definitions = Some m"
  shows "\<exists>g fs fn fb.
           named_type definitions ''generic'' = Some g \<and>
           named_format g ''UTF8 string'' = Some fs \<and>
           named_format g ''nil'' = Some fn \<and>
           named_format g ''boolean'' = Some fb \<and>
           STRING_TF m = [type_code g, format_code fs] \<and>
           NIL_TF m = [type_code g, format_code fn] \<and>
           BOOL_TF m = [type_code g, format_code fb]"
  using assms by (auto simp: load_def toTF_def split: option.splits)

lemma find_unique:
  assumes "distinct (map f xs)" "x \<in> set xs"
  shows "find (\<lambda>y. f y = f x) xs = Some x"
  using assms by (induction xs) (auto simp: image_iff)

lemma load_bfe_json: "load bfe_json = Some bfe"
  by code_simp

text \<open>The definitions that evaluate \<open>encode\<close> on a concrete string.\<close>

lemmas eval_defs = ascii_def bfe_def bfe_json_def feed_type_def msg_type_def msg_classic_def
  msg_bendy_butt_def generic_type_def generic_string_def generic_boolean_def generic_nil_def
  encode_string_def findClassicTypeFormat_def
  type_matches_def format_matches_def truthy_def or_empty_def startsWith_def endsWith_def
  encoder_string_def encoder_nil_def encoder_boolean_def encoder_sigilSuffix_def
  is_high_surrogate_def is_low_surrogate_def utf8_bytes_def BOOL_TRUE_def BOOL_FALSE_def

lemma load_tags_distinct:
  assumes "load definitions = Some m"
  shows "NIL_TF m \<noteq> BOOL_TF m \<and> NIL_TF m \<noteq> STRING_TF m \<and> BOOL_TF m \<noteq> STRING_TF m"
proof -
  from load_tags [OF assms] obtain g fs fn fb where
    g: "named_type definitions ''generic'' = Some g" and
    fs: "named_format g ''UTF8 string'' = Some fs" and
    fn: "named_format g ''nil'' = Some fn" and
    fb: "named_format g ''boolean'' = Some fb" and
    tf: "STRING_TF m = [type_code g, format_code fs]"
        "NIL_TF m = [type_code g, format_code fn]"
        "BOOL_TF m = [type_code g, format_code fb]"
    by blast
  from g have "g \<in> set definitions" by (simp add: named_type_mem)
  with load_distinct [OF assms] have d: "distinct (map format_code (formats g))" by blast
  have inj: "inj_on format_code (set (formats g))"
    using d by (simp add: distinct_map)
  from fs fn fb have mem: "fs \<in> set (formats g)" "fn \<in> set (formats g)" "fb \<in> set (formats g)"
    and names: "format_name fs = ''UTF8 string''" "format_name fn = ''nil''"
      "format_name fb = ''boolean''"
    by (simp_all add: named_format_mem)
  from names have "fn \<noteq> fb" "fn \<noteq> fs" "fb \<noteq> fs" by auto
  with inj mem have "format_code fn \<noteq> format_code fb" "format_code fn \<noteq> format_code fs"
    "format_code fb \<noteq> format_code fs"
    by (auto dest: inj_onD)
  with tf show ?thesis by simp
qed

subsection \<open>Buffers that are too short\<close>

text \<open>
  C6.  \<open>decode\<close> of a buffer of fewer than two bytes, the empty buffer and every
  buffer of one byte, fails with MalformedTag.
\<close>

theorem decode_short_buffer:
  "length input < 2 \<Longrightarrow> decode m (VBuf input) = Inl MalformedTag"
  by (simp add: decode_buffer_def)

theorem decode_short_buffer_witness:
  "length [6 :: byte] < 2 \<and> decode bfe (VBuf [6]) = Inl MalformedTag"
  using decode_short_buffer [of "[6]" bfe] by simp

subsection \<open>Booleans and null\<close>

text \<open>
  C7.  In a loaded module the encoding of a boolean is a buffer of exactly three bytes:
  the code of the generic type, the code of its boolean format, and 1 for true, 0 for
  false.
\<close>

theorem encode_boolean:
  assumes "load definitions = Some m"
  shows "\<exists>g f. named_type definitions ''generic'' = Some g \<and>
               named_format g ''boolean'' = Some f \<and>
               encode m (VBool b) =
                 Inr (VBuf [type_code g, format_code f, if b then 1 else 0])"
  using load_tags [OF assms]
  by (auto simp: encoder_boolean_def BOOL_TRUE_def BOOL_FALSE_def)

theorem encode_boolean_witness:
  "load bfe_json = Some bfe \<and> encode bfe (VBool True) = Inr (VBuf [6, 1, 1])
     \<and> encode bfe (VBool False) = Inr (VBuf [6, 1, 0])"
  using encode_boolean [OF load_bfe_json, of True] encode_boolean [OF load_bfe_json, of False]
  by (simp add: load_bfe_json encoder_boolean_def BOOL_TRUE_def BOOL_FALSE_def bfe_def)

text \<open>
  C8.  In a loaded module the encoding of null is the buffer of exactly two bytes, the
  code of the generic type and the code of its nil format, with no payload; and
  \<open>decode\<close> of that buffer is null.
\<close>

theorem nil_tag:
  assumes "load definitions = Some m"
  shows "\<exists>g f. named_type definitions ''generic'' = Some g \<and>
               named_format g ''nil'' = Some f \<and>
               encode m VNull = Inr (VBuf [type_code g, format_code f]) \<and>
               decode m (VBuf [type_code g, format_code f]) = Inr VNull"
  using load_tags [OF assms]
  by (auto simp: encoder_nil_def decode_buffer_def)

theorem nil_tag_witness:
  "load bfe_json = Some bfe \<and> encode bfe VNull = Inr (VBuf [6, 2])
     \<and> decode bfe (VBuf [6, 2]) = Inr VNull"
  using nil_tag [OF load_bfe_json]
  by (simp add: load_bfe_json encoder_nil_def decode_buffer_def bfe_def)

text \<open>
  What \<open>decoder.bool\<close> does with a buffer that starts with the boolean tag: the check
  of \<open>input.size\<close> never fails, the third byte alone decides, and a buffer that ends
  after the tag is invalid.
\<close>

lemma decode_boolean_tag:
  assumes "load definitions = Some m" and "take 2 input = BOOL_TF m"
  shows "decode m (VBuf input) =
           (if 2 < length input \<and> input ! 2 = 0 then Inr (VBool False)
            else if 2 < length input \<and> input ! 2 = 1 then Inr (VBool True)
            else Inl InvalidBoolean)"
proof -
  from load_tags [OF assms(1)] assms(2) obtain a b r where
    input: "input = a # b # r" and tf: "BOOL_TF m = [a, b]"
    by (cases input; cases "tl input") auto
  from load_tags_distinct [OF assms(1)] have ne: "NIL_TF m \<noteq> [a, b]"
    by (simp add: tf)
  from load_tags [OF assms(1)] have len: "length (NIL_TF m) = 2" by auto
  have nil: "a # b # r' \<noteq> NIL_TF m" for r'
  proof
    assume eq: "a # b # r' = NIL_TF m"
    from len have "length (a # b # r') = 2" by (simp only: eq)
    then have "r' = []" by simp
    with eq ne show False by simp
  qed
  show ?thesis
    unfolding input
    by (cases r)
      (simp_all add: decode_buffer_def decoder_bool_def js_gt_def buffer_size_def
        BOOL_TRUE_def BOOL_FALSE_def nil tf)
qed

text \<open>
  C2.  The claim asks for InvalidBoolean whenever the payload of a boolean tag is not
  exactly one byte.  The source reads \<open>input.size\<close>, which a Buffer does not have,
  so a payload of two bytes is accepted: the boolean tag followed by the bytes 1 and 0
  decodes to true.
\<close>

theorem decode_boolean_trailing_bytes:
  "decode bfe (VBuf [6, 1, 1, 0]) = Inr (VBool True)"
  by (simp add: decode_buffer_def decoder_bool_def js_gt_def buffer_size_def bfe_def
      BOOL_TRUE_def BOOL_FALSE_def)

subsection \<open>The nil tag followed by a payload\<close>

text \<open>
  C9.  In a loaded module whose generic type has no sigil and whose nil format has no
  suffix, \<open>decode\<close> of a buffer of more than two bytes that starts with the nil tag
  does not return null: the comparison with the nil tag is an equality of whole buffers,
  the registry lookup finds the generic type and its nil format, and the call fails with
  the NoDecoder error.
\<close>

theorem nil_tag_with_payload:
  assumes "load definitions = Some m"
    and "named_type definitions ''generic'' = Some g" and "\<not> truthy (sigil g)"
    and "named_format g ''nil'' = Some f" and "\<not> truthy (suffix f)"
    and "length input > 2" and "take 2 input = NIL_TF m"
  shows "decode m (VBuf input) = Inl (NoDecoder ''generic'' ''nil'')
         \<and> decode m (VBuf input) \<noteq> Inr VNull"
proof -
  from load_tags [OF assms(1)] assms(2,4)
  have nil: "NIL_TF m = [type_code g, format_code f]" by auto
  from assms(2,4) have mem: "g \<in> set definitions" "f \<in> set (formats g)"
    and names: "type_name g = ''generic''" "format_name f = ''nil''"
    by (simp_all add: named_type_mem named_format_mem)
  from load_distinct [OF assms(1)] mem
  have d: "distinct (map type_code definitions)" "distinct (map format_code (formats g))"
    by auto
  from assms(6,7) nil obtain r where input: "input = type_code g # format_code f # r" "r \<noteq> []"
    by (cases input; cases "tl input"; cases "tl (tl input)") auto
  have ft: "find (\<lambda>t. [type_code t] = take 1 input) (TYPES m) = Some g"
    using find_unique [OF d(1) mem(1)] by (simp add: input load_TYPES [OF assms(1)])
  have ff: "find (\<lambda>f'. [format_code f'] = take 1 (drop 1 input)) (formats g) = Some f"
    using find_unique [OF d(2) mem(2)] by (simp add: input)
  have "input \<noteq> NIL_TF m" using input nil by simp
  moreover have "take 2 input \<noteq> BOOL_TF m" "take 2 input \<noteq> STRING_TF m"
    using load_tags_distinct [OF assms(1)] assms(7) by auto
  ultimately show ?thesis
    using assms(3,5,6) ft ff by (simp add: decode_buffer_def names)
qed

theorem nil_tag_with_payload_witness:
  "load bfe_json = Some bfe \<and> decode bfe (VBuf [6, 2, 0]) = Inl (NoDecoder ''generic'' ''nil'')"
proof -
  have g: "named_type bfe_json ''generic'' = Some generic_type" by code_simp
  have f: "named_format generic_type ''nil'' = Some generic_nil" by code_simp
  have s: "\<not> truthy (sigil generic_type)" by code_simp
  have x: "\<not> truthy (suffix generic_nil)" by code_simp
  have l: "length [6, 2, 0 :: byte] > 2" by simp
  have t: "take 2 [6, 2, 0 :: byte] = NIL_TF bfe" by (simp add: bfe_def)
  from nil_tag_with_payload [OF load_bfe_json g s f x l t] show ?thesis
    by (simp add: load_bfe_json)
qed

subsection \<open>The registry lookup of \<open>decode\<close>\<close>

text \<open>
  C4.  For a buffer of at least two bytes that is not the nil tag and does not start
  with the boolean or the string tag, \<open>decode\<close> looks for the first type whose code
  is byte 0 and fails with UnknownTag when there is none; it then looks among the formats
  of that type for the first whose code is byte 1 and fails with UnknownFormat when there
  is none; when the type has a sigil or the format has a suffix (a string that is present
  and not empty), the result is the string made of the sigil, the base64 text of the
  payload and the suffix; otherwise the call fails with NoDecoder.
\<close>

theorem decode_registry:
  assumes "length input \<ge> 2" and "input \<noteq> NIL_TF m"
    and "take 2 input \<noteq> BOOL_TF m" and "take 2 input \<noteq> STRING_TF m"
  shows "decode m (VBuf input) =
     (case find (\<lambda>t. type_code t = input ! 0) (TYPES m) of
        None \<Rightarrow> Inl UnknownTag
      | Some t \<Rightarrow>
          (case find (\<lambda>f. format_code f = input ! 1) (formats t) of
             None \<Rightarrow> Inl (UnknownFormat (type_name t))
           | Some f \<Rightarrow>
               if truthy (sigil t) \<or> truthy (suffix f)
               then Inr (VStr (or_empty (sigil t) @ base64_encode (drop 2 input)
                                @ or_empty (suffix f)))
               else Inl (NoDecoder (type_name t) (format_name f))))"
proof -
  from assms(1) obtain a b r where input: "input = a # b # r"
    by (cases input; cases "tl input") auto
  show ?thesis using assms unfolding input
    by (simp add: decode_buffer_def decoder_sigilSuffix_def split: option.splits)
qed

theorem decode_registry_witness:
  "length [1, 0, 65, 66, 67 :: byte] \<ge> 2 \<and> [1, 0, 65, 66, 67] \<noteq> NIL_TF bfe
     \<and> take 2 [1, 0, 65, 66, 67] \<noteq> BOOL_TF bfe \<and> take 2 [1, 0, 65, 66, 67] \<noteq> STRING_TF bfe
     \<and> decode bfe (VBuf [1, 0, 65, 66, 67]) = Inr (VStr (ascii ''%QUJD.sha256''))"
proof -
  have h: "length [1, 0, 65, 66, 67 :: byte] \<ge> 2" "[1, 0, 65, 66, 67] \<noteq> NIL_TF bfe"
    "take 2 [1, 0, 65, 66, 67] \<noteq> BOOL_TF bfe" "take 2 [1, 0, 65, 66, 67] \<noteq> STRING_TF bfe"
    by (simp_all add: bfe_def)
  have b: "base64_encode [65, 66, 67] = ascii ''QUJD''" by code_simp
  have "decode bfe (VBuf [1, 0, 65, 66, 67]) = Inr (VStr (ascii ''%QUJD.sha256''))"
    unfolding decode_registry [OF h] by (simp add: b eval_defs)
  with h show ?thesis by simp
qed

subsection \<open>Arrays and objects\<close>

text \<open>
  What \<open>encode\<close> does with an array and with an object of the model.  Where the
  elements of an array encode to the values of \<open>ys\<close>, hole for hole, the array encodes
  to the array that keeps the holes, has the nil tag wherever \<open>ys\<close> has
  \<open>undefined\<close> and has the element of \<open>ys\<close> everywhere else.  Where the
  properties of an object encode to the properties \<open>qs\<close> (same keys, encoded values),
  the object encodes to the object that has the properties of \<open>qs\<close> whose value is
  not \<open>undefined\<close>, in their order, and only these.
\<close>

lemma encode_elems_all2:
  "list_all2 (rel_option (\<lambda>x y. encode m x = Inr y)) xs ys \<Longrightarrow>
   encode_elems m xs =
     Inr (map (map_option (\<lambda>y. if y = VUndefined then VBuf (NIL_TF m) else y)) ys)"
proof (induction xs ys rule: list_all2_induct)
  case Nil
  show ?case by simp
next
  case (Cons x xs y ys)
  then show ?case
    by (cases x; cases y) (simp_all add: encoder_nil_def)
qed

lemma encode_props_all2:
  "list_all2 (\<lambda>p q. fst q = fst p \<and> encode m (snd p) = Inr (snd q)) ps qs \<Longrightarrow>
   encode_props m ps = Inr (filter (\<lambda>q. snd q \<noteq> VUndefined) qs)"
  by (induction ps qs rule: list_all2_induct) (auto split: prod.splits)

lemma encode_undefined_iff: "encode m v = Inr VUndefined \<longleftrightarrow> v = VUndefined"
  by (cases v) (auto simp: encode_string_def split: option.splits prod.splits sum.splits)

lemma encode_array:
  assumes "list_all2 (rel_option (\<lambda>x y. encode m x = Inr y)) xs ys"
  shows "encode m (VArr xs) =
           Inr (VArr (map (map_option (\<lambda>y. if y = VUndefined then VBuf (NIL_TF m) else y)) ys))"
    and "length ys = length xs"
    and "Some VUndefined \<notin>
           set (map (map_option (\<lambda>y. if y = VUndefined then VBuf (NIL_TF m) else y)) ys)"
proof -
  show "encode m (VArr xs) =
           Inr (VArr (map (map_option (\<lambda>y. if y = VUndefined then VBuf (NIL_TF m) else y)) ys))"
    using assms by (simp add: encode_elems_all2)
  show "length ys = length xs"
    using assms by (simp add: list_all2_lengthD)
  have ne: "map_option (\<lambda>y. if y = VUndefined then VBuf (NIL_TF m) else y) z
              \<noteq> Some VUndefined" for z
    by (cases z) simp_all
  show "Some VUndefined \<notin>
           set (map (map_option (\<lambda>y. if y = VUndefined then VBuf (NIL_TF m) else y)) ys)"
  proof
    assume "Some VUndefined \<in>
           set (map (map_option (\<lambda>y. if y = VUndefined then VBuf (NIL_TF m) else y)) ys)"
    then obtain z where
      "Some VUndefined = map_option (\<lambda>y. if y = VUndefined then VBuf (NIL_TF m) else y) z"
      by auto
    then have
      "map_option (\<lambda>y. if y = VUndefined then VBuf (NIL_TF m) else y) z = Some VUndefined"
      by (rule sym)
    with ne show False by blast
  qed
qed

lemma encode_object:
  assumes "list_all2 (\<lambda>p q. fst q = fst p \<and> encode m (snd p) = Inr (snd q)) ps qs"
  shows "encode m (VObj ps) = Inr (VObj (filter (\<lambda>q. snd q \<noteq> VUndefined) qs))"
  using assms by (simp add: encode_props_all2)

text \<open>
  C5.  The claim asks for an output array without holes.  \<open>input.map\<close> does not call
  its callback on a hole and leaves the hole in its result: the array \<open>[ , true]\<close>
  encodes to an array whose index 0 is still a hole, not the nil tag.  (The other half of
  the claim, that every key with a value is kept, fails for the own key \<open>__proto__\<close>,
  which is not a key of the model.)
\<close>

theorem encode_sparse_array:
  "encode bfe (VArr [None, Some (VBool True)]) = Inr (VArr [None, Some (VBuf [6, 1, 1])])"
  by (simp add: encoder_boolean_def BOOL_TRUE_def bfe_def)

text \<open>
  C10.  On the values of the model \<open>encode\<close> is idempotent: when \<open>encode(v)\<close>
  succeeds with \<open>w\<close>, \<open>encode(w)\<close> succeeds with \<open>w\<close>.  The source is not
  idempotent on an object with the own key \<open>__proto__\<close> and an object as its value,
  which is not a value of the model: the first result has no own key and inherits the
  properties of the encoded value, and the second result has them as its own.
\<close>

lemma encode_idem_aux:
  "(encode m v = Inr w \<longrightarrow> encode m w = Inr w)"
  "(encode_elems m xs = Inr ys \<longrightarrow> encode_elems m ys = Inr ys)"
  "(encode_props m ps = Inr qs \<longrightarrow> encode_props m qs = Inr qs)"
proof (induction m v and m xs and m ps arbitrary: w and ys and qs
    rule: encode_encode_elems_encode_props.induct)
  case (4 m s)
  then show ?case by (auto simp: encode_string_def split: option.splits prod.splits)
next
  case (11 m xs)
  then show ?case by (auto split: sum.splits)
next
  case (12 m x xs)
  then show ?case by (auto simp: encoder_nil_def split: sum.splits)
next
  case (14 m key x ps)
  then show ?case by (auto split: sum.splits if_splits)
qed (auto split: sum.splits)

lemma encode_idempotent_plain:
  "encode m v = Inr w \<Longrightarrow> encode m w = Inr w"
  using encode_idem_aux(1) by blast

subsection \<open>Strings\<close>

lemma matcher_SomeD:
  assumes "findClassicTypeFormat input types = (Some t, Some f)"
  shows "t \<in> set types" and "f \<in> set (formats t)"
    and "truthy (sigil t)" and "truthy (suffix f)"
    and "input = or_empty (sigil t) @ payload_between input t f @ or_empty (suffix f)"
proof -
  from assms have ft: "find (type_matches input) types = Some t"
    and ff: "find (format_matches (drop (length (or_empty (sigil t))) input)) (formats t) = Some f"
    by (auto simp: findClassicTypeFormat_def split: option.splits)
  from ft show "t \<in> set types" by (auto simp: find_Some_iff)
  from ff show "f \<in> set (formats t)" by (auto simp: find_Some_iff)
  from ft have tm: "type_matches input t" by (auto simp: find_Some_iff)
  from ff have fm: "format_matches (drop (length (or_empty (sigil t))) input) f"
    by (auto simp: find_Some_iff)
  from tm show "truthy (sigil t)" by (simp add: type_matches_def)
  from fm show "truthy (suffix f)" by (simp add: format_matches_def)
  define sg where "sg = or_empty (sigil t)"
  define sx where "sx = or_empty (suffix f)"
  define rest where "rest = drop (length sg) input"
  from tm have p: "take (length sg) input = sg"
    by (simp add: type_matches_def startsWith_def sg_def)
  from fm have q: "length sx \<le> length rest" "drop (length rest - length sx) rest = sx"
    by (simp_all add: format_matches_def endsWith_def sg_def sx_def rest_def)
  have "input = take (length sg) input @ rest" by (simp add: rest_def)
  also have "rest = take (length rest - length sx) rest @ drop (length rest - length sx) rest"
    by simp
  finally have "input = sg @ take (length rest - length sx) rest @ sx"
    by (simp only: p q)
  moreover have "take (length rest - length sx) rest = payload_between input t f"
    by (simp add: payload_between_def rest_def sg_def sx_def)
  ultimately show "input = or_empty (sigil t) @ payload_between input t f @ or_empty (suffix f)"
    by (simp add: sg_def sx_def)
qed

lemma encoder_data_payload:
  assumes "findClassicTypeFormat input types = (Some t, Some f)"
    and "length (or_empty (sigil t)) = 1"
  shows "take (length input - 1 - length (or_empty (suffix f))) (drop 1 input)
           = payload_between input t f"
  using assms(2) by (simp add: payload_between_def)


lemma base64_QUJD: "base64_decode (ascii ''QUJD'') = [65, 66, 67]"
  by code_simp


subsection \<open>Decoding what was encoded\<close>

lemma load_tag_lengths:
  assumes "load definitions = Some m"
  shows "length (STRING_TF m) = 2" "length (NIL_TF m) = 2" "length (BOOL_TF m) = 2"
  using load_tags [OF assms] by auto

lemma roundtrip_bool:
  assumes "load definitions = Some m"
  shows "decode m (VBuf (encoder_boolean m b)) = Inr (VBool b)"
proof -
  from load_tag_lengths [OF assms] have "take 2 (encoder_boolean m b) = BOOL_TF m"
    by (simp add: encoder_boolean_def)
  from decode_boolean_tag [OF assms this] load_tag_lengths(3) [OF assms]
  show ?thesis
    by (cases b) (simp_all add: encoder_boolean_def nth_append BOOL_TRUE_def BOOL_FALSE_def)
qed

lemma roundtrip_nil:
  assumes "load definitions = Some m"
  shows "decode m (VBuf (encoder_nil m)) = Inr VNull"
  using load_tag_lengths [OF assms] by (simp add: encoder_nil_def decode_buffer_def)

lemma roundtrip_plain_string:
  assumes "load definitions = Some m" and "well_formed s"
  shows "decode m (VBuf (encoder_string m s)) = Inr (VStr s)"
proof -
  from load_tag_lengths [OF assms(1)] have len: "length (STRING_TF m) = 2"
    and nlen: "length (NIL_TF m) = 2" by simp_all
  have t: "take 2 (STRING_TF m @ utf8_encode s) = STRING_TF m"
    and d: "drop 2 (STRING_TF m @ utf8_encode s) = utf8_encode s"
    using len by simp_all
  have n: "STRING_TF m @ utf8_encode s \<noteq> NIL_TF m"
  proof
    assume eq: "STRING_TF m @ utf8_encode s = NIL_TF m"
    then have "take 2 (STRING_TF m @ utf8_encode s) = take 2 (NIL_TF m)" by simp
    with t nlen have "STRING_TF m = NIL_TF m" by simp
    with load_tags_distinct [OF assms(1)] show False by simp
  qed
  from load_tags_distinct [OF assms(1)] have b: "STRING_TF m \<noteq> BOOL_TF m" by auto
  show ?thesis
    using len n b utf8_decode_encode [OF assms(2)]
    by (simp add: encoder_string_def decode_buffer_def decoder_string_def t d)
qed

lemma roundtrip_classic_string:
  assumes ld: "load definitions = Some m"
    and g: "named_type definitions ''generic'' = Some g" and ns: "\<not> truthy (sigil g)"
    and mt: "findClassicTypeFormat s (TYPES m) = (Some t, Some f)"
    and one: "length (or_empty (sigil t)) = 1"
    and can: "canonical_base64 (payload_between s t f)"
  shows "decode m (VBuf (encoder_sigilSuffix s t f)) = Inr (VStr s)"
proof -
  note M = matcher_SomeD [OF mt]
  have types: "TYPES m = definitions" by (rule load_TYPES [OF ld])
  from load_distinct [OF ld] M(1,2) types
  have d: "distinct (map type_code definitions)" "distinct (map format_code (formats t))"
    by auto
  define payload where "payload = base64_decode (payload_between s t f)"
  have enc: "encoder_sigilSuffix s t f = type_code t # format_code f # payload"
    using M(3,4) encoder_data_payload [OF mt one]
    by (simp add: encoder_sigilSuffix_def payload_def)
  from g have gm: "g \<in> set definitions" by (simp add: named_type_mem)
  from ns M(3) have "t \<noteq> g" by auto
  with d(1) gm M(1) types have code: "type_code t \<noteq> type_code g"
    by (auto simp: distinct_map dest: inj_onD)
  from load_tags [OF ld] g obtain fs fn fb where
    tf: "STRING_TF m = [type_code g, fs]" "NIL_TF m = [type_code g, fn]"
      "BOOL_TF m = [type_code g, fb]"
    by auto
  have ft: "find (\<lambda>t'. [type_code t'] = take 1 (type_code t # format_code f # payload))
              (TYPES m) = Some t"
    using find_unique [OF d(1)] M(1) types by simp
  have ff: "find (\<lambda>f'. [format_code f'] = take 1 (drop 1 (type_code t # format_code f # payload)))
              (formats t) = Some f"
    using find_unique [OF d(2) M(2)] by simp
  have "decode m (VBuf (type_code t # format_code f # payload)) =
          Inr (VStr (decoder_sigilSuffix (type_code t # format_code f # payload) t f))"
    using code M(3) ft ff by (simp add: decode_buffer_def tf)
  also have "decoder_sigilSuffix (type_code t # format_code f # payload) t f =
      or_empty (sigil t) @ payload_between s t f @ or_empty (suffix f)"
    using can by (simp add: decoder_sigilSuffix_def payload_def canonical_base64_def)
  also have "\<dots> = s" using M(5) by simp
  finally show ?thesis by (simp add: enc)
qed

lemma roundtrip_string:
  assumes "load definitions = Some m"
    and "named_type definitions ''generic'' = Some g" and "\<not> truthy (sigil g)"
    and "faithful_string m s"
  shows "\<exists>w. encode_string m s = Inr w \<and> decode m w = Inr (VStr s)"
proof (cases "findClassicTypeFormat s (TYPES m)")
  case (Pair ot ofm)
  show ?thesis
  proof (cases ot)
    case None
    with Pair assms(4) have "well_formed s" by (simp add: faithful_string_def)
    from roundtrip_plain_string [OF assms(1) this] Pair None
    show ?thesis by (simp add: encode_string_def)
  next
    case (Some t)
    with Pair assms(4) obtain f where f: "ofm = Some f"
      and one: "length (or_empty (sigil t)) = 1"
      and can: "canonical_base64 (payload_between s t f)"
      by (cases ofm) (auto simp: faithful_string_def)
    from Pair Some f have mt: "findClassicTypeFormat s (TYPES m) = (Some t, Some f)" by simp
    from roundtrip_classic_string [OF assms(1,2,3) mt one can] mt
    show ?thesis by (simp add: encode_string_def)
  qed
qed

lemma roundtrip_aux:
  assumes ld: "load definitions = Some m"
    and g: "named_type definitions ''generic'' = Some g" and ns: "\<not> truthy (sigil g)"
  shows "faithful m v \<longrightarrow> (\<exists>w. encode m v = Inr w \<and> decode m w = Inr v)"
    and "faithful_elems m xs \<longrightarrow>
           (\<exists>ys. encode_elems m xs = Inr ys \<and> decode_elems m ys = Inr xs)"
    and "faithful_props m ps \<longrightarrow>
           (\<exists>qs. encode_props m ps = Inr qs \<and> decode_props m qs = Inr ps)"
  using assms
proof (induction m v and m xs and m ps rule: faithful_faithful_elems_faithful_props.induct)
  case (1 m)
  then show ?case using roundtrip_nil [of definitions m] by simp
next
  case (2 m b)
  then show ?case using roundtrip_bool [of definitions m b] by simp
next
  case (4 m s)
  then show ?case using roundtrip_string [of definitions m g s] by simp
next
  case (5 m xs)
  then show ?case by auto
next
  case (6 m ps)
  then show ?case by auto
next
  case (11 m xs)
  then show ?case by auto
next
  case (12 m x xs)
  show ?case
  proof
    assume "faithful_elems m (Some x # xs)"
    with 12 obtain w ys where w: "encode m x = Inr w" "decode m w = Inr x"
      and ys: "encode_elems m xs = Inr ys" "decode_elems m ys = Inr xs"
      by auto
    from w(2) have "w \<noteq> VUndefined" by auto
    with w ys show "\<exists>ys. encode_elems m (Some x # xs) = Inr ys
        \<and> decode_elems m ys = Inr (Some x # xs)"
      by simp
  qed
next
  case (14 m key x ps)
  show ?case
  proof
    assume "faithful_props m ((key, x) # ps)"
    with 14 obtain w qs where w: "encode m x = Inr w" "decode m w = Inr x"
      and qs: "encode_props m ps = Inr qs" "decode_props m qs = Inr ps"
      by auto
    from w(2) have "w \<noteq> VUndefined" by auto
    with w qs show "\<exists>qs. encode_props m ((key, x) # ps) = Inr qs
        \<and> decode_props m qs = Inr ((key, x) # ps)"
      by simp
  qed
qed simp_all

text \<open>
  C1, as the source has it.  In a loaded module whose generic type has no sigil,
  \<open>decode(encode(v)) = v\<close> for every value \<open>v\<close> built from null, booleans,
  integers, strings that no sigil matches and that are well-formed UTF-16, strings that a
  type and a format match with a sigil of one character and a canonical base64 payload,
  and arrays and objects of such values, no object having the key \<open>__proto__\<close>.
\<close>

theorem decode_encode_faithful:
  assumes "load definitions = Some m"
    and "named_type definitions ''generic'' = Some g" and "\<not> truthy (sigil g)"
    and "faithful m v"
  shows "decode_encode m v = Inr v"
  using roundtrip_aux(1) [OF assms(1,2,3), of v] assms(4)
  by (auto simp: decode_encode_def)

lemmas decode_eval_defs = decode_encode_def decode_buffer_def decoder_bool_def decoder_string_def
  decoder_sigilSuffix_def js_gt_def buffer_size_def is_cont_def code_units_def

text \<open>
  C1 as stated counts bytes among the values that come back.  \<open>encode\<close> returns a
  buffer as it is and \<open>decode\<close> reads it as a tagged value: the empty buffer fails
  with MalformedTag, and the buffer 06 00 41 comes back as the string \<open>A\<close>.
\<close>

theorem decode_encode_bytes_counterexample:
  "decode_encode bfe (VBuf []) = Inl MalformedTag
   \<and> decode_encode bfe (VBuf [6, 0, 65]) = Inr (VStr (ascii ''A''))"
  by (simp add: decode_eval_defs eval_defs)

text \<open>
  The strings that do not come back: a payload that is not canonical base64, a surrogate
  without its partner, and a sigil without a known suffix (no result at all).
\<close>

lemma decode_encode_not_canonical:
  "decode_encode bfe (VStr (ascii ''%QQ.sha256'')) = Inr (VStr (ascii ''%QQ==.sha256''))"
proof -
  have m: "findClassicTypeFormat (ascii ''%QQ.sha256'') (TYPES bfe)
     = (Some msg_type, Some msg_classic)"
    by (simp add: eval_defs)
  have s: "encoder_sigilSuffix (ascii ''%QQ.sha256'') msg_type msg_classic = [1, 0, 65]"
    by (simp add: eval_defs base64_decode_def unbase64_def low_byte_def)
  have e: "encode bfe (VStr (ascii ''%QQ.sha256'')) = Inr (VBuf [1, 0, 65])"
    by (simp add: encode_string_def m s)
  have b: "base64_encode [65] = ascii ''QQ==''" by code_simp
  have "decode bfe (VBuf [1, 0, 65]) = Inr (VStr (ascii ''%QQ==.sha256''))"
    by (simp add: decode_eval_defs b eval_defs)
  with e show ?thesis by (simp add: decode_encode_def)
qed

lemma decode_encode_lone_surrogate:
  "decode_encode bfe (VStr [55296]) = Inr (VStr [65533])"
  by (simp add: decode_eval_defs eval_defs Let_def)

lemma decode_encode_unknown_format:
  "decode_encode bfe (VStr (ascii ''%QUJD'')) = Inl (UnknownFormat ''msg'')"
  by (simp add: decode_eval_defs eval_defs)

theorem decode_encode_faithful_witness:
  "load bfe_json = Some bfe \<and> named_type bfe_json ''generic'' = Some generic_type
   \<and> \<not> truthy (sigil generic_type)
   \<and> faithful bfe (VArr [Some VNull, None, Some (VBool True), Some (VInt 3),
        Some (VStr (ascii ''hi'')), Some (VStr (ascii ''%QUJD.sha256'')),
        Some (VObj [(Key (ascii ''key''), VArr [Some (VBool False)])])])
   \<and> decode_encode bfe (VArr [Some VNull, None, Some (VBool True), Some (VInt 3),
        Some (VStr (ascii ''hi'')), Some (VStr (ascii ''%QUJD.sha256'')),
        Some (VObj [(Key (ascii ''key''), VArr [Some (VBool False)])])])
      = Inr (VArr [Some VNull, None, Some (VBool True), Some (VInt 3),
        Some (VStr (ascii ''hi'')), Some (VStr (ascii ''%QUJD.sha256'')),
        Some (VObj [(Key (ascii ''key''), VArr [Some (VBool False)])])])"
proof -
  have g: "named_type bfe_json ''generic'' = Some generic_type" by code_simp
  have s: "\<not> truthy (sigil generic_type)" by code_simp
  have m1: "findClassicTypeFormat (ascii ''hi'') (TYPES bfe) = (None, None)"
    by (simp add: eval_defs)
  have w1: "well_formed (ascii ''hi'')" by (simp add: eval_defs)
  have m2: "findClassicTypeFormat (ascii ''%QUJD.sha256'') (TYPES bfe)
     = (Some msg_type, Some msg_classic)"
    by (simp add: eval_defs)
  have l2: "length (or_empty (sigil msg_type)) = 1" by (simp add: eval_defs)
  have p2: "payload_between (ascii ''%QUJD.sha256'') msg_type msg_classic = ascii ''QUJD''"
    by (simp add: payload_between_def eval_defs)
  have e2: "base64_encode [65, 66, 67] = ascii ''QUJD''" by code_simp
  have c2: "canonical_base64 (ascii ''QUJD'')"
    by (simp add: canonical_base64_def base64_QUJD e2)
  have f: "faithful bfe (VArr [Some VNull, None, Some (VBool True), Some (VInt 3),
        Some (VStr (ascii ''hi'')), Some (VStr (ascii ''%QUJD.sha256'')),
        Some (VObj [(Key (ascii ''key''), VArr [Some (VBool False)])])])"
    by (simp add: faithful_string_def m1 w1 m2 l2 p2 c2)
  from decode_encode_faithful [OF load_bfe_json g s f] load_bfe_json g s f
  show ?thesis by simp
qed

end
